theory Spec2Isabelle
  imports Main "HOL-Library.Word" "HOL-Library.Multiset"
begin

unbundle bit_operations_syntax

section \<open>Data model of terrible.cc\<close>

text \<open>
  \<^verbatim>\<open>using byte = std::uint8_t; using bytes = std::vector<byte>;\<close>
  \<^verbatim>\<open>std::size_t\<close> and \<^verbatim>\<open>unsigned long\<close> are 64 bits wide (LP64).
\<close>

type_synonym byte = "8 word"
type_synonym bytes = "byte list"
type_synonym size_t = "64 word"

text \<open>
  The exceptions the program can throw, each with its \<^verbatim>\<open>what()\<close> text, and one more
  value for the runs the C++ standard leaves undefined: indexing a vector out of range
  and dereferencing an end-of-stream \<^verbatim>\<open>std::istream_iterator\<close>.
\<close>

datatype error =
    invalid_argument string
  | out_of_range string
  | runtime_error string
  | undefined_behaviour

subsection \<open>std::to_string on an unsigned value\<close>

definition digit_char :: "nat \<Rightarrow> char" where
  "digit_char d = ''0123456789'' ! d"

fun to_string :: "nat \<Rightarrow> string" where
  "to_string n = (if n < 10 then [digit_char n] else to_string (n div 10) @ [digit_char (n mod 10)])"

declare to_string.simps [simp del]

section \<open>class keystream_generator\<close>

record keystream_generator =
  m_key :: bytes
  m_i :: size_t
  m_q :: byte

definition keysize :: nat where
  "keysize = 256"

text \<open>
  The constructor (lines 40-44). The parameter \<^verbatim>\<open>key\<close> is moved into \<^verbatim>\<open>m_key\<close> before
  the body runs: the test reads \<^verbatim>\<open>m_key.size()\<close>, and the \<^verbatim>\<open>key.size()\<close> of the message is
  the size of the moved-from vector, which the standard library leaves empty.
\<close>

definition keystream_generator_new :: "bytes \<Rightarrow> error + keystream_generator" where
  "keystream_generator_new key =
    (let g = \<lparr>m_key = key, m_i = 0, m_q = 0\<rparr>;
         moved_from = ([] :: bytes)
     in if length (m_key g) \<noteq> keysize
        then Inl (invalid_argument (''invalid keysize('' @ to_string (length moved_from) @ '')''))
        else Inr g)"

text \<open>
  \<^verbatim>\<open>byte operator()()\<close> (lines 46-57). The sums of two bytes are computed in \<^verbatim>\<open>int\<close>
  (integral promotion), reduced modulo \<^verbatim>\<open>keysize\<close> and narrowed to a byte again.
  \<^verbatim>\<open>m_key[...]\<close> does not check its index: an index outside the vector is undefined.
\<close>

definition operator_call :: "keystream_generator \<Rightarrow> error + (byte \<times> keystream_generator)" where
  "operator_call g =
    (let i = m_i g + 1;
         h = (ucast (i mod of_nat keysize) :: byte);
         k = m_key g
     in if length k \<le> unat h then Inl undefined_behaviour else
        let q = (of_nat ((unat (m_q g) + unat (k ! unat h)) mod keysize) :: byte)
        in if length k \<le> unat q then Inl undefined_behaviour else
        let k' = k[unat h := k ! unat q, unat q := k ! unat h];
            w = (of_nat ((unat (k' ! unat h) + unat (k' ! unat q)) mod keysize) :: byte)
        in if length k \<le> unat w then Inl undefined_behaviour else
           Inr (k' ! unat w, \<lparr>m_key = k', m_i = i, m_q = q\<rparr>))"

text \<open>The generator after \<open>n\<close> successive calls of \<^verbatim>\<open>operator()\<close>, the bytes dropped.\<close>

fun calls :: "nat \<Rightarrow> keystream_generator \<Rightarrow> error + keystream_generator" where
  "calls 0 g = Inr g"
| "calls (Suc n) g = (case operator_call g of Inl e \<Rightarrow> Inl e | Inr (b, g') \<Rightarrow> calls n g')"

section \<open>class keystream_iterator\<close>

record keystream_iterator =
  m_gen :: keystream_generator
  m_current :: byte

text \<open>\<^verbatim>\<open>operator*\<close> (line 74) and the prefix \<^verbatim>\<open>operator++\<close> (lines 76-79).\<close>

definition dereference :: "keystream_iterator \<Rightarrow> error + byte" where
  "dereference it = Inr (m_current it)"

definition pre_increment :: "keystream_iterator \<Rightarrow> error + keystream_iterator" where
  "pre_increment it =
    (case operator_call (m_gen it) of
       Inl e \<Rightarrow> Inl e
     | Inr (b, g) \<Rightarrow> Inr (it\<lparr>m_gen := g, m_current := b\<rparr>))"

text \<open>
  The constructor (lines 70-72): the generator is built from the key, then the iterator
  is incremented once. \<^verbatim>\<open>m_current\<close> has no initialiser; the increment overwrites it
  before anything reads it, so the 0 below is never seen.
\<close>

definition keystream_iterator_new :: "bytes \<Rightarrow> error + keystream_iterator" where
  "keystream_iterator_new key =
    (case keystream_generator_new key of
       Inl e \<Rightarrow> Inl e
     | Inr g \<Rightarrow> pre_increment \<lparr>m_gen = g, m_current = 0\<rparr>)"

section \<open>The standard library as main uses it\<close>

subsection \<open>std::istream_iterator<byte> on a stream that does not skip whitespace\<close>

text \<open>
  The iterator as the C++ standard describes it: it holds the last byte it read; it
  reads one byte when it is constructed and one at every increment; when the read fails
  (the stream is at its end) it becomes the end-of-stream iterator, and dereferencing
  that one is undefined. \<open>M_stream\<close> is what the stream still holds, \<open>M_ok\<close> is false
  for the end-of-stream iterator, and \<open>M_value\<close> is read only while \<open>M_ok\<close> holds,
  so the 0 it starts with is never seen.
\<close>

record istream_iterator =
  M_stream :: bytes
  M_value :: byte
  M_ok :: bool

definition M_read :: "istream_iterator \<Rightarrow> istream_iterator" where
  "M_read it =
    (if M_ok it
     then (case M_stream it of
             [] \<Rightarrow> it\<lparr>M_ok := False\<rparr>
           | b # bs \<Rightarrow> it\<lparr>M_stream := bs, M_value := b\<rparr>)
     else it)"

definition istream_iterator_new :: "bytes \<Rightarrow> istream_iterator" where
  "istream_iterator_new s = M_read \<lparr>M_stream = s, M_value = 0, M_ok = True\<rparr>"

definition istream_dereference :: "istream_iterator \<Rightarrow> error + byte" where
  "istream_dereference it = (if M_ok it then Inr (M_value it) else Inl undefined_behaviour)"

definition istream_increment :: "istream_iterator \<Rightarrow> error + istream_iterator" where
  "istream_increment it = Inr (M_read it)"

subsection \<open>std::transform with std::bit_xor and std::generate_n\<close>

text \<open>
  \<^verbatim>\<open>std::transform(first1, last1, first2, out, std::bit_xor<byte>{})\<close> with \<open>first1\<close> an
  istream iterator and \<open>last1\<close> the end-of-stream iterator:
  \<^verbatim>\<open>for (; first1 != last1; ++first1, ++first2, ++out) *out = *first1 ^ *first2;\<close>
  Only the first range is tested for its end. The second iterator is given by its
  dereference and increment; \<open>out\<close> is what has been written so far.
\<close>

function transform ::
  "istream_iterator \<Rightarrow> 's \<Rightarrow> ('s \<Rightarrow> error + byte) \<Rightarrow> ('s \<Rightarrow> error + 's) \<Rightarrow> bytes \<Rightarrow> error + bytes" where
  "transform first1 first2 deref2 incr2 out =
    (if \<not> M_ok first1 then Inr out
     else case deref2 first2 of
            Inl e \<Rightarrow> Inl e
          | Inr b \<Rightarrow>
              (case incr2 first2 of
                 Inl e \<Rightarrow> Inl e
               | Inr first2' \<Rightarrow>
                   transform (M_read first1) first2' deref2 incr2 (out @ [M_value first1 XOR b])))"
  by pat_completeness auto
termination
  by (relation "measure (\<lambda>(first1, first2, deref2, incr2, out).
        length (M_stream first1) + (if M_ok first1 then 1 else 0))")
     (auto simp: M_read_def split: list.splits)

declare transform.simps [simp del]

text \<open>
  \<^verbatim>\<open>std::generate_n(out, n, g)\<close>: \<^verbatim>\<open>for (; n > 0; --n, ++out) *out = g();\<close> on its own copy
  of the generator. The copy's last state is returned beside the output.
\<close>

fun generate_n :: "nat \<Rightarrow> keystream_generator \<Rightarrow> bytes \<Rightarrow> error + (bytes \<times> keystream_generator)" where
  "generate_n 0 g out = Inr (out, g)"
| "generate_n (Suc n) g out =
    (case operator_call g of
       Inl e \<Rightarrow> Inl e
     | Inr (b, g') \<Rightarrow> generate_n n g' (out @ [b]))"

subsection \<open>std::stoul\<close>

text \<open>
  \<^verbatim>\<open>std::stoul(str)\<close> calls \<^verbatim>\<open>strtoul(str, &end, 10)\<close>: leading white space is skipped, one
  sign is accepted, then the longest run of decimal digits is converted and whatever
  follows is ignored. Without a digit it throws \<^verbatim>\<open>std::invalid_argument\<close>; a value above
  \<^verbatim>\<open>ULONG_MAX\<close> throws \<^verbatim>\<open>std::out_of_range\<close>; after a minus sign the value is negated
  in \<^verbatim>\<open>unsigned long\<close>.
\<close>

definition isspace :: "char \<Rightarrow> bool" where
  "isspace c = (c \<in> set [CHR '' '', CHR 0x09, CHR 0x0A, CHR 0x0B, CHR 0x0C, CHR 0x0D])"

definition isdigit :: "char \<Rightarrow> bool" where
  "isdigit c = (c \<in> set ''0123456789'')"

definition digit_value :: "char \<Rightarrow> nat" where
  "digit_value c = of_char c - 48"

definition ULONG_MAX :: nat where
  "ULONG_MAX = 2 ^ 64 - 1"

text \<open>The sign and the digit run that \<^verbatim>\<open>strtoul\<close> finds in a string, and a digit run's value.\<close>

definition strtoul_subject :: "string \<Rightarrow> bool \<times> string" where
  "strtoul_subject str =
    (let s = dropWhile isspace str;
         negative = (s \<noteq> [] \<and> hd s = CHR ''-'');
         signed = (s \<noteq> [] \<and> (hd s = CHR ''-'' \<or> hd s = CHR ''+''))
     in (negative, takeWhile isdigit (if signed then tl s else s)))"

definition decimal :: "string \<Rightarrow> nat" where
  "decimal ds = foldl (\<lambda>acc c. acc * 10 + digit_value c) 0 ds"

definition stoul :: "string \<Rightarrow> error + size_t" where
  "stoul str =
    (case strtoul_subject str of
       (negative, ds) \<Rightarrow>
         if ds = [] then Inl (invalid_argument ''stoul'')
         else if ULONG_MAX < decimal ds then Inl (out_of_range ''stoul'')
         else Inr (if negative then - of_nat (decimal ds) else of_nat (decimal ds)))"

section \<open>The three modes of main\<close>

text \<open>
  Each mode is its branch of \<^verbatim>\<open>main\<close> after the argument count check, with the files
  already read: \<open>key\<close> is what \<^verbatim>\<open>read_key\<close> returned, \<open>stdin\<close>, \<open>file_1\<close> and \<open>file_2\<close>
  are the contents of the streams, and the result is what was written to \<^verbatim>\<open>std::cout\<close>.
\<close>

definition main_crypt :: "bytes \<Rightarrow> bytes \<Rightarrow> error + bytes" where
  "main_crypt key stdin =
    (let in_it = istream_iterator_new stdin
     in case keystream_iterator_new key of
          Inl e \<Rightarrow> Inl e
        | Inr ks \<Rightarrow> transform in_it ks dereference pre_increment [])"

definition main_keystream :: "bytes \<Rightarrow> string \<Rightarrow> error + bytes" where
  "main_keystream key arg =
    (case stoul arg of
       Inl e \<Rightarrow> Inl e
     | Inr len \<Rightarrow>
         (case keystream_generator_new key of
            Inl e \<Rightarrow> Inl e
          | Inr g \<Rightarrow> map_sum id fst (generate_n (unat len) g [])))"

definition main_xor :: "bytes \<Rightarrow> bytes \<Rightarrow> error + bytes" where
  "main_xor file_1 file_2 =
    transform (istream_iterator_new file_1) (istream_iterator_new file_2)
      istream_dereference istream_increment []"

section \<open>The step algorithm as the specification words it\<close>

text \<open>
  The generator state of the specification: a working key, a step counter modulo 256
  and an accumulator, all as numbers. One step: (1) increment the step counter modulo
  256, giving \<open>h\<close>; (2) add \<open>working_key[h]\<close> to the accumulator modulo 256, giving
  \<open>q\<close>; (3) swap \<open>working_key[h]\<close> and \<open>working_key[q]\<close>; (4) \<open>w\<close> is the sum of the two
  swapped entries modulo 256; (5) the output is \<open>working_key[w]\<close>.
\<close>

record spec_state =
  working_key :: "nat list"
  step_counter :: nat
  accumulator :: nat

definition spec_produce_next_byte :: "spec_state \<Rightarrow> nat \<times> spec_state" where
  "spec_produce_next_byte s =
    (let h = (step_counter s + 1) mod 256;
         q = (accumulator s + working_key s ! h) mod 256;
         swapped = (working_key s)[h := working_key s ! q, q := working_key s ! h];
         w = (swapped ! h + swapped ! q) mod 256
     in (swapped ! w, \<lparr>working_key = swapped, step_counter = h, accumulator = q\<rparr>))"

text \<open>
  How a generator of the program is read as a state of the specification: the program
  counts every call in \<open>m_i\<close> and reduces modulo 256 when it uses the count.
\<close>

definition abstraction :: "keystream_generator \<Rightarrow> spec_state" where
  "abstraction g =
    \<lparr>working_key = map unat (m_key g),
     step_counter = unat (m_i g) mod 256,
     accumulator = unat (m_q g)\<rparr>"

text \<open>What an istream iterator will still deliver: its held byte, then the stream's rest.\<close>

definition remaining :: "istream_iterator \<Rightarrow> bytes" where
  "remaining it = (if M_ok it then M_value it # M_stream it else [])"

section \<open>Lemmas\<close>

subsection \<open>One call of the generator\<close>

lemma to_string_0: "to_string 0 = ''0''"
  by (simp add: to_string.simps digit_char_def)

lemma byte_less_keysize: "unat (b :: byte) < keysize"
  using unsigned_less [of b] by (simp add: keysize_def)

lemma unat_of_nat_mod_keysize: "unat (of_nat (n mod keysize) :: byte) = n mod keysize"
  by (simp add: unat_of_nat keysize_def)

lemma unat_h:
  "unat (ucast ((i + 1) mod of_nat keysize :: size_t) :: byte) = (unat i mod 256 + 1) mod 256"
proof -
  have "unat (ucast ((i + 1) mod of_nat keysize :: size_t) :: byte)
      = unat ((i + 1) mod 256) mod 256"
    by (simp add: unsigned_ucast_eq take_bit_eq_mod keysize_def)
  also have "\<dots> = ((unat i + 1) mod 2 ^ 64) mod 256"
    by (simp add: unat_mod_distrib unat_word_ariths)
  also have "\<dots> = (unat i + 1) mod 256"
    by (simp add: mod_mod_cancel)
  finally show ?thesis by (simp add: mod_simps)
qed

lemma operator_call_valid:
  assumes "length (m_key g) = keysize"
  shows "\<exists>b g'. operator_call g = Inr (b, g') \<and> length (m_key g') = keysize
           \<and> mset (m_key g') = mset (m_key g) \<and> b \<in> set (m_key g) \<and> m_i g' = m_i g + 1"
proof -
  define h where "h = (ucast ((m_i g + 1) mod of_nat keysize) :: byte)"
  define q where "q = (of_nat ((unat (m_q g) + unat (m_key g ! unat h)) mod keysize) :: byte)"
  define k' where "k' = (m_key g)[unat h := m_key g ! unat q, unat q := m_key g ! unat h]"
  define w where "w = (of_nat ((unat (k' ! unat h) + unat (k' ! unat q)) mod keysize) :: byte)"
  have len: "length k' = keysize" by (simp add: k'_def assms)
  have ms: "mset k' = mset (m_key g)"
    unfolding k'_def by (rule mset_swap) (simp_all add: assms byte_less_keysize)
  have "k' ! unat w \<in> set k'" by (rule nth_mem) (simp add: len byte_less_keysize)
  then have mem: "k' ! unat w \<in> set (m_key g)" using ms by (metis mset_eq_setD)
  have "operator_call g = Inr (k' ! unat w, \<lparr>m_key = k', m_i = m_i g + 1, m_q = q\<rparr>)"
    using assms byte_less_keysize
    by (simp add: operator_call_def Let_def h_def q_def k'_def w_def not_le [symmetric] del: not_le)
  then show ?thesis using len ms mem by simp
qed

lemma operator_call_refines:
  assumes "length (m_key g) = keysize"
  shows "\<exists>b g'. operator_call g = Inr (b, g')
           \<and> spec_produce_next_byte (abstraction g) = (unat b, abstraction g')"
proof -
  define h where "h = (ucast ((m_i g + 1) mod of_nat keysize) :: byte)"
  define q where "q = (of_nat ((unat (m_q g) + unat (m_key g ! unat h)) mod keysize) :: byte)"
  define k' where "k' = (m_key g)[unat h := m_key g ! unat q, unat q := m_key g ! unat h]"
  define w where "w = (of_nat ((unat (k' ! unat h) + unat (k' ! unat q)) mod keysize) :: byte)"
  define g' where "g' = \<lparr>m_key = k', m_i = m_i g + 1, m_q = q\<rparr>"
  have len: "length k' = keysize" by (simp add: k'_def assms)
  have run: "operator_call g = Inr (k' ! unat w, g')"
    using assms byte_less_keysize
    by (simp add: operator_call_def Let_def h_def q_def k'_def w_def g'_def not_le [symmetric] del: not_le)
  have hl: "unat h < length (m_key g)" "unat q < length (m_key g)" "unat w < length k'"
       "unat h < length k'" "unat q < length k'"
    using assms len byte_less_keysize by simp_all
  have H: "(step_counter (abstraction g) + 1) mod 256 = unat h"
    unfolding h_def unat_h by (simp add: abstraction_def)
  have Q: "(accumulator (abstraction g) + working_key (abstraction g) ! unat h) mod 256 = unat q"
    unfolding q_def unat_of_nat_mod_keysize using hl by (simp add: abstraction_def keysize_def)
  have S: "(working_key (abstraction g))[unat h := working_key (abstraction g) ! unat q,
              unat q := working_key (abstraction g) ! unat h] = map unat k'"
    using hl by (simp add: abstraction_def k'_def map_update)
  have W: "(map unat k' ! unat h + map unat k' ! unat q) mod 256 = unat w"
    unfolding w_def unat_of_nat_mod_keysize using hl by (simp add: keysize_def)
  have R: "map unat k' ! unat w = unat (k' ! unat w)"
    using hl by simp
  have "unat (m_i g + 1) mod 256 = (unat (m_i g) mod 256 + 1) mod 256"
    by (simp add: unat_word_ariths mod_mod_cancel mod_simps)
  then have A: "abstraction g' = \<lparr>working_key = map unat k', step_counter = unat h, accumulator = unat q\<rparr>"
    using H by (simp add: abstraction_def g'_def)
  have "spec_produce_next_byte (abstraction g) = (unat (k' ! unat w), abstraction g')"
    by (simp only: spec_produce_next_byte_def Let_def H Q S W R A)
  with run show ?thesis by blast
qed

subsection \<open>The loops: generate_n and transform\<close>

lemma remaining_new: "remaining (istream_iterator_new s) = s"
  by (cases s) (simp_all add: remaining_def istream_iterator_new_def M_read_def)

lemma remaining_Nil: "remaining it = [] \<Longrightarrow> \<not> M_ok it"
  by (simp add: remaining_def split: if_splits)

lemma remaining_Cons:
  "remaining it = a # as \<Longrightarrow> M_ok it \<and> M_value it = a \<and> remaining (M_read it) = as"
  by (cases as) (auto simp add: remaining_def M_read_def split: if_splits)

lemma generate_n_out:
  "generate_n n g out =
     (case generate_n n g [] of Inl e \<Rightarrow> Inl e | Inr (ks, g') \<Rightarrow> Inr (out @ ks, g'))"
proof (induction n arbitrary: g out)
  case 0
  show ?case by simp
next
  case (Suc n)
  show ?case
  proof (cases "operator_call g")
    case (Inl e)
    then show ?thesis by simp
  next
    case (Inr p)
    obtain b g1 where p: "p = (b, g1)" by (cases p)
    show ?thesis
      using Inr p Suc.IH [of g1 "out @ [b]"] Suc.IH [of g1 "[b]"]
      by (simp split: sum.splits prod.splits)
  qed
qed

lemma calls_valid:
  "length (m_key g) = keysize \<Longrightarrow>
     \<exists>g'. calls n g = Inr g' \<and> length (m_key g') = keysize
        \<and> mset (m_key g') = mset (m_key g) \<and> m_i g' = m_i g + of_nat n"
proof (induction n arbitrary: g)
  case 0
  then show ?case by simp
next
  case (Suc n)
  from operator_call_valid [OF Suc.prems] obtain b g1 where
    s: "operator_call g = Inr (b, g1)" "length (m_key g1) = keysize"
       "mset (m_key g1) = mset (m_key g)" "m_i g1 = m_i g + 1"
    by blast
  from Suc.IH [OF s(2)] obtain g' where
    "calls n g1 = Inr g'" "length (m_key g') = keysize"
    "mset (m_key g') = mset (m_key g1)" "m_i g' = m_i g1 + of_nat n"
    by blast
  with s show ?case by simp
qed

lemma generate_n_valid:
  "length (m_key g) = keysize \<Longrightarrow>
     \<exists>ks g'. generate_n n g [] = Inr (ks, g') \<and> length ks = n \<and> set ks \<subseteq> set (m_key g)
        \<and> calls n g = Inr g'"
proof (induction n arbitrary: g)
  case 0
  then show ?case by simp
next
  case (Suc n)
  from operator_call_valid [OF Suc.prems] obtain b g1 where
    s: "operator_call g = Inr (b, g1)" "length (m_key g1) = keysize"
       "mset (m_key g1) = mset (m_key g)" "b \<in> set (m_key g)"
    by blast
  from Suc.IH [OF s(2)] obtain ks g' where
    r: "generate_n n g1 [] = Inr (ks, g')" "length ks = n" "set ks \<subseteq> set (m_key g1)"
       "calls n g1 = Inr g'"
    by blast
  have "set (m_key g1) = set (m_key g)" using s(3) by (rule mset_eq_setD)
  moreover have "generate_n (Suc n) g [] = Inr (b # ks, g')"
    using s(1) r(1) generate_n_out [of n g1 "[b]"] by simp
  ultimately show ?case using s r by simp
qed

lemma generate_n_nth:
  "length (m_key g) = keysize \<Longrightarrow> generate_n n g [] = Inr (ks, g') \<Longrightarrow> i < n \<Longrightarrow>
     \<exists>gi gi'. calls i g = Inr gi \<and> operator_call gi = Inr (ks ! i, gi')"
proof (induction n arbitrary: g ks i g')
  case 0
  then show ?case by simp
next
  case (Suc n)
  from operator_call_valid [OF Suc.prems(1)] obtain b g1 where
    s: "operator_call g = Inr (b, g1)" "length (m_key g1) = keysize"
    by blast
  from generate_n_valid [OF s(2), of n] obtain ks1 g1' where
    r: "generate_n n g1 [] = Inr (ks1, g1')"
    by blast
  have ks: "ks = b # ks1"
    using Suc.prems(2) s(1) r generate_n_out [of n g1 "[b]"] by simp
  show ?case
  proof (cases i)
    case 0
    then show ?thesis using s(1) ks by simp
  next
    case (Suc j)
    then have "j < n" using Suc.prems(3) by simp
    from Suc.IH [OF s(2) r this] show ?thesis using Suc s(1) ks by simp
  qed
qed

lemma transform_keystream:
  "length (m_key g) = keysize \<Longrightarrow> operator_call g = Inr (b0, g1) \<Longrightarrow> remaining first1 = xs \<Longrightarrow>
     \<exists>ks g'. generate_n (length xs) g [] = Inr (ks, g')
        \<and> transform first1 \<lparr>m_gen = g1, m_current = b0\<rparr> dereference pre_increment out
            = Inr (out @ map2 (XOR) xs ks)"
proof (induction xs arbitrary: g b0 g1 first1 out)
  case Nil
  then have "\<not> M_ok first1" by (simp add: remaining_Nil)
  then show ?case by (simp add: transform.simps)
next
  case (Cons a as)
  from remaining_Cons [OF Cons.prems(3)] have
    f: "M_ok first1" "M_value first1 = a" "remaining (M_read first1) = as"
    by simp_all
  from operator_call_valid [OF Cons.prems(1)] Cons.prems(2) have v1: "length (m_key g1) = keysize"
    by auto
  from operator_call_valid [OF v1] obtain b1 g2 where s: "operator_call g1 = Inr (b1, g2)"
    by blast
  from Cons.IH [OF v1 s f(3), of "out @ [a XOR b0]"] obtain ks g' where
    r: "generate_n (length as) g1 [] = Inr (ks, g')"
       "transform (M_read first1) \<lparr>m_gen = g2, m_current = b1\<rparr> dereference pre_increment
          (out @ [a XOR b0]) = Inr ((out @ [a XOR b0]) @ map2 (XOR) as ks)"
    by blast
  have "generate_n (length (a # as)) g [] = Inr (b0 # ks, g')"
    using Cons.prems(2) r(1) generate_n_out [of "length as" g1 "[b0]"] by simp
  moreover have "transform first1 \<lparr>m_gen = g1, m_current = b0\<rparr> dereference pre_increment out
      = Inr (out @ map2 (XOR) (a # as) (b0 # ks))"
  proof -
    have "dereference \<lparr>m_gen = g1, m_current = b0\<rparr> = Inr b0"
         "pre_increment \<lparr>m_gen = g1, m_current = b0\<rparr> = Inr \<lparr>m_gen = g2, m_current = b1\<rparr>"
      using s by (simp_all add: dereference_def pre_increment_def)
    then show ?thesis
      using f r(2) by (subst transform.simps) simp
  qed
  ultimately show ?case by blast
qed

lemma transform_istream:
  "remaining first1 = xs \<Longrightarrow> remaining first2 = ys \<Longrightarrow>
     transform first1 first2 istream_dereference istream_increment out
       = (if length xs \<le> length ys then Inr (out @ map2 (XOR) xs ys) else Inl undefined_behaviour)"
proof (induction xs arbitrary: ys first1 first2 out)
  case Nil
  then have "\<not> M_ok first1" by (simp add: remaining_Nil)
  then show ?case by (simp add: transform.simps)
next
  case (Cons a as)
  from remaining_Cons [OF Cons.prems(1)] have
    f: "M_ok first1" "M_value first1 = a" "remaining (M_read first1) = as"
    by simp_all
  show ?case
  proof (cases ys)
    case Nil
    then have "\<not> M_ok first2" using Cons.prems(2) by (simp add: remaining_Nil)
    then have "istream_dereference first2 = Inl undefined_behaviour"
      by (simp add: istream_dereference_def)
    then show ?thesis using f Nil
      by (subst transform.simps) simp
  next
    case (Cons b bs)
    with Cons.prems(2) remaining_Cons [of first2 b bs] have
      s: "M_ok first2" "M_value first2 = b" "remaining (M_read first2) = bs"
      by simp_all
    have d: "istream_dereference first2 = Inr b" "istream_increment first2 = Inr (M_read first2)"
      using s by (simp_all add: istream_dereference_def istream_increment_def)
    show ?thesis
      using f d Cons Cons.IH [OF f(3) s(3), of "out @ [a XOR b]"]
      by (subst transform.simps) simp
  qed
qed

lemma main_xor_eq:
  "main_xor file_1 file_2 =
     (if length file_1 \<le> length file_2 then Inr (map2 (XOR) file_1 file_2)
      else Inl undefined_behaviour)"
  using transform_istream [of "istream_iterator_new file_1" file_1 "istream_iterator_new file_2" file_2 "[]"]
  by (simp add: main_xor_def remaining_new)

lemma keystream_generator_new_valid:
  "length key = keysize \<Longrightarrow> keystream_generator_new key = Inr \<lparr>m_key = key, m_i = 0, m_q = 0\<rparr>"
  by (simp add: keystream_generator_new_def)

lemma keystream_generator_new_invalid:
  "length key \<noteq> keysize \<Longrightarrow>
     keystream_generator_new key = Inl (invalid_argument ''invalid keysize(0)'')"
  by (simp add: keystream_generator_new_def to_string_0)

lemma step_counter_after_calls:
  "m_i g = of_nat n \<Longrightarrow> step_counter (abstraction g) = n mod 256"
  by (simp add: abstraction_def unat_of_nat mod_mod_cancel)

lemma main_crypt_eq:
  assumes "length key = keysize"
  shows "\<exists>ks g'. generate_n (length input) \<lparr>m_key = key, m_i = 0, m_q = 0\<rparr> [] = Inr (ks, g')
           \<and> length ks = length input
           \<and> main_crypt key input = Inr (map2 (XOR) input ks)"
proof -
  let ?g = "\<lparr>m_key = key, m_i = 0, m_q = 0\<rparr>"
  have v: "length (m_key ?g) = keysize" using assms by simp
  from operator_call_valid [OF v] obtain b0 g1 where s: "operator_call ?g = Inr (b0, g1)"
    by blast
  have it: "keystream_iterator_new key = Inr \<lparr>m_gen = g1, m_current = b0\<rparr>"
    using assms s by (simp add: keystream_iterator_new_def keystream_generator_new_valid pre_increment_def)
  from transform_keystream [OF v s remaining_new, of input "[]"] obtain ks g' where
    r: "generate_n (length input) ?g [] = Inr (ks, g')"
       "transform (istream_iterator_new input) \<lparr>m_gen = g1, m_current = b0\<rparr>
          dereference pre_increment [] = Inr ([] @ map2 (XOR) input ks)"
    by blast
  from generate_n_valid [OF v, of "length input"] r(1) have "length ks = length input"
    by auto
  then show ?thesis using r it by (simp add: main_crypt_def)
qed

lemma map2_xor_twice:
  "length ks = length (xs :: bytes) \<Longrightarrow> map2 (XOR) (map2 (XOR) xs ks) ks = xs"
proof (induction xs arbitrary: ks)
  case Nil
  show ?case by simp
next
  case (Cons x xs)
  then obtain k ks' where "ks = k # ks'" by (cases ks) auto
  with Cons show ?case by (simp add: xor.assoc)
qed

subsection \<open>The length argument and the all-zero key\<close>

lemmas stoul_eval = stoul_def strtoul_subject_def decimal_def isspace_def isdigit_def
  digit_value_def ULONG_MAX_def

lemma fresh_generate_n:
  assumes "length key = 256"
  shows "\<exists>ks g. generate_n n \<lparr>m_key = key, m_i = 0, m_q = 0\<rparr> [] = Inr (ks, g) \<and> length ks = n
           \<and> set ks \<subseteq> set key
           \<and> (\<forall>i<n. \<exists>gi gi'. calls i \<lparr>m_key = key, m_i = 0, m_q = 0\<rparr> = Inr gi
                   \<and> operator_call gi = Inr (ks ! i, gi'))"
proof -
  let ?g0 = "\<lparr>m_key = key, m_i = 0, m_q = 0\<rparr>"
  have v: "length (m_key ?g0) = keysize" using assms by (simp add: keysize_def)
  from generate_n_valid [OF v, of n] obtain ks g where
    r: "generate_n n ?g0 [] = Inr (ks, g)" "length ks = n" "set ks \<subseteq> set key"
    by auto
  have "\<forall>i<n. \<exists>gi gi'. calls i ?g0 = Inr gi \<and> operator_call gi = Inr (ks ! i, gi')"
    using generate_n_nth [OF v r(1)] by blast
  with r show ?thesis by blast
qed

lemma main_keystream_Inr:
  assumes "length key = 256" and "stoul arg = Inr len"
  shows "\<exists>ks g. generate_n (unat len) \<lparr>m_key = key, m_i = 0, m_q = 0\<rparr> [] = Inr (ks, g)
           \<and> main_keystream key arg = Inr ks"
proof -
  from fresh_generate_n [OF assms(1), of "unat len"] obtain ks g where
    "generate_n (unat len) \<lparr>m_key = key, m_i = 0, m_q = 0\<rparr> [] = Inr (ks, g)"
    by blast
  then show ?thesis
    using assms by (simp add: main_keystream_def keystream_generator_new_valid keysize_def)
qed

lemma unat_neg: "unat (- x :: size_t) = (2 ^ 64 - unat x) mod 2 ^ 64"
proof -
  have le: "unat x \<le> 2 ^ 64" using unsigned_less [of x, where ?'a = nat] by simp
  have z: "(of_nat (2 ^ 64) :: size_t) = 0" by simp
  have "(of_nat (2 ^ 64 - unat x) :: size_t) = of_nat (2 ^ 64) - of_nat (unat x)"
    using le by (rule of_nat_diff)
  also have "\<dots> = - x" unfolding z by simp
  finally have "unat (- x) = unat (of_nat (2 ^ 64 - unat x) :: size_t)" by simp
  also have "\<dots> = (2 ^ 64 - unat x) mod 2 ^ 64" by (simp add: unat_of_nat)
  finally show ?thesis .
qed

lemma zero_key_call:
  assumes "length k = keysize" and "set k \<subseteq> {0}"
  shows "operator_call \<lparr>m_key = k, m_i = i, m_q = 0\<rparr> = Inr (0, \<lparr>m_key = k, m_i = i + 1, m_q = 0\<rparr>)"
proof -
  have z: "k ! unat b = 0" for b :: byte
  proof -
    have "k ! unat b \<in> set k" by (rule nth_mem) (simp add: assms byte_less_keysize)
    then show ?thesis using assms(2) by auto
  qed
  have u: "k[unat b := 0] = k" for b :: byte
    using assms byte_less_keysize [of b] z [of b] by (simp add: list_update_same_conv)
  have l: "\<not> length k \<le> unat b" for b :: byte
    using assms byte_less_keysize [of b] by simp
  show ?thesis
    using u [of 0] z [of 0] by (simp add: operator_call_def Let_def z u l)
qed

lemma zero_key_generate_n:
  assumes "length k = keysize" and "set k \<subseteq> {0}"
  shows "\<exists>g. generate_n n \<lparr>m_key = k, m_i = i, m_q = 0\<rparr> [] = Inr (replicate n 0, g)"
proof (induction n arbitrary: i)
  case 0
  show ?case by simp
next
  case (Suc n)
  from Suc.IH [of "i + 1"] obtain g where
    "generate_n n \<lparr>m_key = k, m_i = i + 1, m_q = 0\<rparr> [] = Inr (replicate n 0, g)"
    by blast
  then show ?case
    using zero_key_call [OF assms, of i] generate_n_out [of n "\<lparr>m_key = k, m_i = i + 1, m_q = 0\<rparr>" "[0]"]
    by simp
qed

lemma zero_key_keystream:
  assumes "stoul arg = Inr len"
  shows "main_keystream (replicate 256 0) arg = Inr (replicate (unat len) 0)"
proof -
  have l: "length (replicate 256 (0 :: byte)) = keysize" "set (replicate 256 (0 :: byte)) \<subseteq> {0}"
    by (simp_all add: keysize_def)
  from zero_key_generate_n [OF l, of "unat len" 0] obtain g where
    "generate_n (unat len) \<lparr>m_key = replicate 256 0, m_i = 0, m_q = 0\<rparr> [] = Inr (replicate (unat len) 0, g)"
    by blast
  then show ?thesis
    using assms l(1) by (simp add: main_keystream_def keystream_generator_new_valid)
qed

section \<open>The claims\<close>

subsection \<open>C1: the xor mode\<close>

text \<open>
  Claim C1 says that the xor mode emits the byte-wise XOR of its two files cut to the
  shorter one, whichever file that is. \<^verbatim>\<open>std::transform\<close> tests only the first file's
  iterator for the end (\<open>main_xor_eq\<close>): with a first file of two bytes and a second
  of one byte, the second pass of the loop dereferences the second file's iterator at
  the end of its stream, and the run is undefined instead of stopping after one byte.
  With the files swapped the output is the one byte the claim describes.
\<close>

theorem xor_second_file_shorter:
  "main_xor [0x10, 0x20] [0x01] = Inl undefined_behaviour
   \<and> main_xor [0x01] [0x10, 0x20] = Inr [0x11]"
  by (simp add: main_xor_eq)

subsection \<open>C2: one call is one step of the five-step algorithm\<close>

text \<open>
  Claim C2. For every 256-byte key, the generator built from it can be called any number
  of times, and every call is one step of the specification's five-step algorithm: read
  through \<open>abstraction\<close>, the byte returned and the state left behind by
  \<^verbatim>\<open>operator()\<close> are the output and the state of \<open>spec_produce_next_byte\<close> (pre-incremented
  counter reduced modulo 256 as \<open>h\<close>, accumulator \<open>q\<close>, swap of the entries at \<open>h\<close> and
  \<open>q\<close>, \<open>w\<close> from the swapped entries, output the entry at \<open>w\<close>). The call number
  \<open>n + 1\<close> leaves the step counter at \<open>(n + 1) mod 256\<close>, which is the \<open>h\<close> it used.
\<close>

theorem operator_call_five_steps:
  assumes "length key = 256"
  shows "\<exists>g0. keystream_generator_new key = Inr g0
           \<and> (\<forall>n. \<exists>g b g'. calls n g0 = Inr g \<and> operator_call g = Inr (b, g')
                  \<and> spec_produce_next_byte (abstraction g) = (unat b, abstraction g')
                  \<and> step_counter (abstraction g') = Suc n mod 256)"
proof -
  let ?g0 = "\<lparr>m_key = key, m_i = 0, m_q = 0\<rparr>"
  have v: "length (m_key ?g0) = keysize" using assms by (simp add: keysize_def)
  have "\<exists>g b g'. calls n ?g0 = Inr g \<and> operator_call g = Inr (b, g')
          \<and> spec_produce_next_byte (abstraction g) = (unat b, abstraction g')
          \<and> step_counter (abstraction g') = Suc n mod 256" for n
  proof -
    from calls_valid [OF v, of n] obtain g where
      g: "calls n ?g0 = Inr g" "length (m_key g) = keysize" "m_i g = of_nat n"
      by auto
    from operator_call_refines [OF g(2)] obtain b g' where
      r: "operator_call g = Inr (b, g')"
         "spec_produce_next_byte (abstraction g) = (unat b, abstraction g')"
      by blast
    from operator_call_valid [OF g(2)] r(1) g(3) have "m_i g' = of_nat (Suc n)"
      by auto
    then have "step_counter (abstraction g') = Suc n mod 256"
      by (rule step_counter_after_calls)
    with g r show ?thesis by blast
  qed
  moreover have "keystream_generator_new key = Inr ?g0"
    using assms by (simp add: keystream_generator_new_valid keysize_def)
  ultimately show ?thesis by blast
qed

text \<open>
  The theorem at the all-zero key.
\<close>

theorem operator_call_five_steps_witness:
  "length (replicate 256 (0 :: byte)) = 256
   \<and> (\<exists>g0. keystream_generator_new (replicate 256 0) = Inr g0
           \<and> (\<forall>n. \<exists>g b g'. calls n g0 = Inr g \<and> operator_call g = Inr (b, g')
                  \<and> spec_produce_next_byte (abstraction g) = (unat b, abstraction g')
                  \<and> step_counter (abstraction g') = Suc n mod 256))"
  using operator_call_five_steps [of "replicate 256 0"] by simp

subsection \<open>C3: the keystream mode and its length argument\<close>

text \<open>
  Claim C3 says that the keystream mode fails whenever the length argument is not
  parseable as a non-negative integer and otherwise emits that many bytes. With the
  all-zero key: \<open>-1\<close> is accepted and stands for \<open>2^64 - 1\<close> bytes; \<open>12abc\<close> is accepted
  and stands for 12 bytes; the non-negative integer \<open>99999999999999999999999\<close> is
  refused with \<^verbatim>\<open>std::out_of_range\<close>.
\<close>

theorem keystream_length_argument_counterexample:
  "\<not> isl (main_keystream (replicate 256 0) ''-1'')
   \<and> length (projr (main_keystream (replicate 256 0) ''-1'')) = 18446744073709551615
   \<and> main_keystream (replicate 256 0) ''12abc'' = Inr (replicate 12 0)
   \<and> main_keystream (replicate 256 0) ''99999999999999999999999'' = Inl (out_of_range ''stoul'')"
proof -
  have a: "stoul ''-1'' = Inr (- 1)" by (simp add: stoul_eval)
  have b: "stoul ''12abc'' = Inr 12" by (simp add: stoul_eval)
  have c: "stoul ''99999999999999999999999'' = Inl (out_of_range ''stoul'')"
    by (simp add: stoul_eval)
  have u: "unat (- 1 :: size_t) = 18446744073709551615"
    using unat_neg [of 1] by simp
  have 1: "main_keystream (replicate 256 0) ''-1'' = Inr (replicate 18446744073709551615 0)"
    using zero_key_keystream [OF a] by (simp only: u)
  have 2: "main_keystream (replicate 256 0) ''12abc'' = Inr (replicate 12 0)"
    using zero_key_keystream [OF b] by simp
  have 3: "main_keystream (replicate 256 0) ''99999999999999999999999'' = Inl (out_of_range ''stoul'')"
    by (simp add: main_keystream_def c)
  show ?thesis by (simp add: 1 2 3)
qed

text \<open>
  Claim C3, amended. With a 256-byte key the keystream mode reads its length argument
  as \<^verbatim>\<open>std::stoul\<close> does: \<open>ds\<close> is the run of decimal digits after leading white space
  and one optional sign, and \<open>negative\<close> says that the sign is a minus. The mode fails
  with \<^verbatim>\<open>std::invalid_argument\<close> when \<open>ds\<close> is empty and with \<^verbatim>\<open>std::out_of_range\<close> when the
  value of \<open>ds\<close> is \<open>2^64\<close> or more. Otherwise it emits exactly \<open>n\<close> bytes, where \<open>n\<close> is
  the value of \<open>ds\<close>, or \<open>2^64\<close> minus that value modulo \<open>2^64\<close> after a minus sign; byte
  number \<open>i\<close> is what \<^verbatim>\<open>operator()\<close> returns on the generator that \<open>i\<close> earlier calls
  have left of a freshly constructed one.
\<close>

theorem keystream_length_argument:
  assumes "length key = 256" and "strtoul_subject arg = (negative, ds)"
  shows "(ds = [] \<longrightarrow> main_keystream key arg = Inl (invalid_argument ''stoul''))
       \<and> (ds \<noteq> [] \<and> 2 ^ 64 \<le> decimal ds \<longrightarrow> main_keystream key arg = Inl (out_of_range ''stoul''))
       \<and> (ds \<noteq> [] \<and> decimal ds < 2 ^ 64 \<longrightarrow>
            (\<exists>ks g0. main_keystream key arg = Inr ks
               \<and> length ks = (if negative then (2 ^ 64 - decimal ds) mod 2 ^ 64 else decimal ds)
               \<and> keystream_generator_new key = Inr g0
               \<and> (\<forall>i<length ks. \<exists>gi gi'. calls i g0 = Inr gi \<and> operator_call gi = Inr (ks ! i, gi'))))"
proof (intro conjI impI)
  assume "ds = []"
  then show "main_keystream key arg = Inl (invalid_argument ''stoul'')"
    using assms(2) by (simp add: main_keystream_def stoul_def)
next
  assume "ds \<noteq> [] \<and> 2 ^ 64 \<le> decimal ds"
  then show "main_keystream key arg = Inl (out_of_range ''stoul'')"
    using assms(2) by (simp add: main_keystream_def stoul_def ULONG_MAX_def)
next
  assume d: "ds \<noteq> [] \<and> decimal ds < 2 ^ 64"
  define len :: size_t where "len = (if negative then - of_nat (decimal ds) else of_nat (decimal ds))"
  have st: "stoul arg = Inr len"
    using assms(2) d by (simp add: stoul_def ULONG_MAX_def len_def)
  have pos: "unat (of_nat (decimal ds) :: size_t) = decimal ds"
    using d by (simp add: unat_of_nat)
  have "unat (- of_nat (decimal ds) :: size_t) = (2 ^ 64 - decimal ds) mod 2 ^ 64"
    using pos by (simp add: unat_neg)
  with pos have ul: "unat len = (if negative then (2 ^ 64 - decimal ds) mod 2 ^ 64 else decimal ds)"
    by (simp add: len_def)
  let ?g0 = "\<lparr>m_key = key, m_i = 0, m_q = 0\<rparr>"
  from fresh_generate_n [OF assms(1), of "unat len"] obtain ks g where
    r: "generate_n (unat len) ?g0 [] = Inr (ks, g)" "length ks = unat len"
       "\<forall>i<unat len. \<exists>gi gi'. calls i ?g0 = Inr gi \<and> operator_call gi = Inr (ks ! i, gi')"
    by blast
  have k: "keystream_generator_new key = Inr ?g0"
    using assms(1) by (simp add: keystream_generator_new_valid keysize_def)
  have "main_keystream key arg = Inr ks"
    using st k r(1) by (simp add: main_keystream_def)
  with r k ul show "\<exists>ks g0. main_keystream key arg = Inr ks
               \<and> length ks = (if negative then (2 ^ 64 - decimal ds) mod 2 ^ 64 else decimal ds)
               \<and> keystream_generator_new key = Inr g0
               \<and> (\<forall>i<length ks. \<exists>gi gi'. calls i g0 = Inr gi \<and> operator_call gi = Inr (ks ! i, gi'))"
    by auto
qed

text \<open>
  The theorem at the identity key and the argument \<open>5\<close>.
\<close>

theorem keystream_length_argument_witness:
  "length (map of_nat [0..<256] :: bytes) = 256
   \<and> strtoul_subject ''5'' = (False, ''5'')
   \<and> ''5'' \<noteq> [] \<and> decimal ''5'' < 2 ^ 64
   \<and> (\<exists>ks g0. main_keystream (map of_nat [0..<256]) ''5'' = Inr ks
          \<and> length ks = 5
          \<and> keystream_generator_new (map of_nat [0..<256]) = Inr g0
          \<and> (\<forall>i<length ks. \<exists>gi gi'. calls i g0 = Inr gi \<and> operator_call gi = Inr (ks ! i, gi')))"
proof -
  have s: "strtoul_subject ''5'' = (False, ''5'')"
    by (simp add: strtoul_subject_def isspace_def isdigit_def)
  have d: "decimal ''5'' = 5" by (simp add: decimal_def digit_value_def)
  show ?thesis
    using keystream_length_argument [of "map of_nat [0..<256]" "''5''" False "''5''"] s d
    by simp
qed

subsection \<open>C4: crypt is its own inverse\<close>

text \<open>
  Claim C4. For every 256-byte key and every finite input, the crypt mode succeeds, and
  running it again with the same key on its own output gives the input back.
\<close>

theorem crypt_self_inverse:
  assumes "length key = 256"
  shows "\<exists>c. main_crypt key data = Inr c \<and> main_crypt key c = Inr data"
proof -
  have k: "length key = keysize" using assms by (simp add: keysize_def)
  let ?g0 = "\<lparr>m_key = key, m_i = 0, m_q = 0\<rparr>"
  from main_crypt_eq [OF k, of data] obtain ks g' where
    a: "generate_n (length data) ?g0 [] = Inr (ks, g')" "length ks = length data"
       "main_crypt key data = Inr (map2 (XOR) data ks)"
    by blast
  let ?c = "map2 (XOR) data ks"
  have l: "length ?c = length data" using a(2) by simp
  from main_crypt_eq [OF k, of ?c] obtain ks' g'' where
    b: "generate_n (length ?c) ?g0 [] = Inr (ks', g'')"
       "main_crypt key ?c = Inr (map2 (XOR) ?c ks')"
    by blast
  have "ks' = ks" using a(1) b(1) l by simp
  then have "main_crypt key ?c = Inr data"
    using b(2) a(2) by (simp only: map2_xor_twice)
  with a(3) show ?thesis by blast
qed

text \<open>
  The theorem at the identity key and a three-byte input.
\<close>

theorem crypt_self_inverse_witness:
  "length (map of_nat [0..<256] :: bytes) = 256
   \<and> (\<exists>c. main_crypt (map of_nat [0..<256]) [1, 2, 3] = Inr c
          \<and> main_crypt (map of_nat [0..<256]) c = Inr [1, 2, 3])"
  using crypt_self_inverse [of "map of_nat [0..<256]" "[1, 2, 3]"] by simp

subsection \<open>C5: the working key stays a permutation of the key\<close>

text \<open>
  Claim C5. For every 256-byte key and every number \<open>n\<close> of calls, the generator's
  working key after \<open>n\<close> calls has the same multiset of bytes as the key.
\<close>

theorem working_key_permutation:
  assumes "length key = 256"
  shows "\<exists>g0. keystream_generator_new key = Inr g0
           \<and> (\<forall>n. \<exists>g. calls n g0 = Inr g \<and> mset (m_key g) = mset key)"
proof -
  let ?g0 = "\<lparr>m_key = key, m_i = 0, m_q = 0\<rparr>"
  have v: "length (m_key ?g0) = keysize" using assms by (simp add: keysize_def)
  have "\<exists>g. calls n ?g0 = Inr g \<and> mset (m_key g) = mset key" for n
    using calls_valid [OF v, of n] by auto
  moreover have "keystream_generator_new key = Inr ?g0"
    using assms by (simp add: keystream_generator_new_valid keysize_def)
  ultimately show ?thesis by blast
qed

text \<open>
  The theorem at the identity key.
\<close>

theorem working_key_permutation_witness:
  "length (map of_nat [0..<256] :: bytes) = 256
   \<and> (\<exists>g0. keystream_generator_new (map of_nat [0..<256]) = Inr g0
          \<and> (\<forall>n. \<exists>g. calls n g0 = Inr g \<and> mset (m_key g) = mset (map of_nat [0..<256])))"
  using working_key_permutation [of "map of_nat [0..<256]"] by simp

subsection \<open>C6: only the construction can fail\<close>

text \<open>
  Claim C6. Constructing a generator from a key that is not 256 bytes long fails with
  the \<^verbatim>\<open>std::invalid_argument\<close> whose text is \<open>invalid keysize(0)\<close>. From a key of 256
  bytes the construction succeeds, and then every call of \<^verbatim>\<open>operator()\<close>, after any
  number of earlier calls, returns a byte. The key of 256 zero bytes is accepted.
\<close>

theorem construction_only_failure:
  "(length key \<noteq> 256 \<longrightarrow>
      keystream_generator_new key = Inl (invalid_argument ''invalid keysize(0)''))
   \<and> (length key = 256 \<longrightarrow>
        (\<exists>g0. keystream_generator_new key = Inr g0
           \<and> (\<forall>n. \<exists>g b g'. calls n g0 = Inr g \<and> operator_call g = Inr (b, g'))))
   \<and> keystream_generator_new (replicate 256 0) = Inr \<lparr>m_key = replicate 256 0, m_i = 0, m_q = 0\<rparr>"
proof (intro conjI impI)
  assume "length key \<noteq> 256"
  then show "keystream_generator_new key = Inl (invalid_argument ''invalid keysize(0)'')"
    by (simp add: keystream_generator_new_invalid keysize_def)
next
  assume k: "length key = 256"
  let ?g0 = "\<lparr>m_key = key, m_i = 0, m_q = 0\<rparr>"
  have v: "length (m_key ?g0) = keysize" using k by (simp add: keysize_def)
  have "\<exists>g b g'. calls n ?g0 = Inr g \<and> operator_call g = Inr (b, g')" for n
  proof -
    from calls_valid [OF v, of n] obtain g where
      g: "calls n ?g0 = Inr g" "length (m_key g) = keysize"
      by blast
    from operator_call_valid [OF g(2)] g(1) show ?thesis by blast
  qed
  moreover have "keystream_generator_new key = Inr ?g0"
    using k by (simp add: keystream_generator_new_valid keysize_def)
  ultimately show "\<exists>g0. keystream_generator_new key = Inr g0
           \<and> (\<forall>n. \<exists>g b g'. calls n g0 = Inr g \<and> operator_call g = Inr (b, g'))"
    by blast
next
  show "keystream_generator_new (replicate 256 0) = Inr \<lparr>m_key = replicate 256 0, m_i = 0, m_q = 0\<rparr>"
    by (simp add: keystream_generator_new_valid keysize_def)
qed

text \<open>
  The theorem at a three-byte key and at the identity key.
\<close>

theorem construction_only_failure_witness:
  "length [1, 2, 3 :: byte] \<noteq> 256
   \<and> keystream_generator_new [1, 2, 3] = Inl (invalid_argument ''invalid keysize(0)'')
   \<and> length (map of_nat [0..<256] :: bytes) = 256
   \<and> (\<exists>g0. keystream_generator_new (map of_nat [0..<256]) = Inr g0
          \<and> (\<forall>n. \<exists>g b g'. calls n g0 = Inr g \<and> operator_call g = Inr (b, g')))"
  using construction_only_failure [of "[1, 2, 3]"] construction_only_failure [of "map of_nat [0..<256]"]
  by simp

subsection \<open>C7: the keystream takes its bytes from the key\<close>

text \<open>
  Claim C7. For every 256-byte key and every \<open>n\<close>, the first \<open>n\<close> bytes of a freshly
  constructed generator are produced, and each of them occurs in the key.
\<close>

theorem keystream_alphabet:
  assumes "length key = 256"
  shows "\<exists>g0 ks g. keystream_generator_new key = Inr g0
           \<and> generate_n n g0 [] = Inr (ks, g) \<and> length ks = n \<and> set ks \<subseteq> set key"
proof -
  from fresh_generate_n [OF assms, of n] obtain ks g where
    "generate_n n \<lparr>m_key = key, m_i = 0, m_q = 0\<rparr> [] = Inr (ks, g)" "length ks = n"
    "set ks \<subseteq> set key"
    by blast
  moreover have "keystream_generator_new key = Inr \<lparr>m_key = key, m_i = 0, m_q = 0\<rparr>"
    using assms by (simp add: keystream_generator_new_valid keysize_def)
  ultimately show ?thesis by blast
qed

text \<open>
  The theorem at the identity key and 1000 bytes.
\<close>

theorem keystream_alphabet_witness:
  "length (map of_nat [0..<256] :: bytes) = 256
   \<and> (\<exists>g0 ks g. keystream_generator_new (map of_nat [0..<256]) = Inr g0
          \<and> generate_n 1000 g0 [] = Inr (ks, g) \<and> length ks = 1000
          \<and> set ks \<subseteq> set (map of_nat [0..<256]))"
  using keystream_alphabet [of "map of_nat [0..<256]" 1000] by simp

subsection \<open>C8: the first byte for the identity key\<close>

text \<open>
  Claim C8. For the key \<open>0, 1, ..., 255\<close> the first call of a freshly constructed
  generator returns 2; it leaves the counter and the accumulator at 1 and the working
  key as it was.
\<close>

theorem identity_key_first_byte:
  "keystream_generator_new (map of_nat [0..<256])
     = Inr \<lparr>m_key = map of_nat [0..<256], m_i = 0, m_q = 0\<rparr>
   \<and> operator_call \<lparr>m_key = map of_nat [0..<256], m_i = 0, m_q = 0\<rparr>
     = Inr (2, \<lparr>m_key = map of_nat [0..<256], m_i = 1, m_q = 1\<rparr>)"
  by (simp add: keystream_generator_new_def operator_call_def Let_def keysize_def
        list_update_same_conv)

subsection \<open>C9: two generators from one key\<close>

text \<open>
  Claim C9. For every 256-byte key and every \<open>N\<close>, two generators constructed from the
  key both produce \<open>N\<close> bytes, and the two sequences are the same.
\<close>

theorem keystream_deterministic:
  assumes "length key = 256"
  shows "\<exists>g1 g2 ks s1 s2. keystream_generator_new key = Inr g1 \<and> keystream_generator_new key = Inr g2
           \<and> generate_n N g1 [] = Inr (ks, s1) \<and> generate_n N g2 [] = Inr (ks, s2)
           \<and> length ks = N"
proof -
  from fresh_generate_n [OF assms, of N] obtain ks g where
    "generate_n N \<lparr>m_key = key, m_i = 0, m_q = 0\<rparr> [] = Inr (ks, g)" "length ks = N"
    by blast
  moreover have "keystream_generator_new key = Inr \<lparr>m_key = key, m_i = 0, m_q = 0\<rparr>"
    using assms by (simp add: keystream_generator_new_valid keysize_def)
  ultimately show ?thesis by blast
qed

text \<open>
  The theorem at the identity key and 100 bytes.
\<close>

theorem keystream_deterministic_witness:
  "length (map of_nat [0..<256] :: bytes) = 256
   \<and> (\<exists>g1 g2 ks s1 s2. keystream_generator_new (map of_nat [0..<256]) = Inr g1
          \<and> keystream_generator_new (map of_nat [0..<256]) = Inr g2
          \<and> generate_n 100 g1 [] = Inr (ks, s1) \<and> generate_n 100 g2 [] = Inr (ks, s2)
          \<and> length ks = 100)"
  using keystream_deterministic [of "map of_nat [0..<256]" 100] by simp

subsection \<open>C10: crypt uses the bytes the keystream mode emits\<close>

text \<open>
  Claim C10. For every 256-byte key and every finite input, when the length argument
  of the keystream mode stands for the length of the input, the output of the crypt mode
  is the byte-wise XOR of the input with the output of the keystream mode: the iterator
  of crypt, which draws its first byte when it is constructed, delivers the generator's
  bytes in the generator's order.
\<close>

theorem crypt_uses_keystream:
  assumes "length key = 256" and "stoul arg = Inr len" and "unat len = length input"
  shows "\<exists>ks. main_keystream key arg = Inr ks \<and> length ks = length input
           \<and> main_crypt key input = Inr (map2 (XOR) input ks)"
proof -
  have k: "length key = keysize" using assms(1) by (simp add: keysize_def)
  from main_crypt_eq [OF k, of input] obtain ks g' where
    c: "generate_n (length input) \<lparr>m_key = key, m_i = 0, m_q = 0\<rparr> [] = Inr (ks, g')"
       "length ks = length input" "main_crypt key input = Inr (map2 (XOR) input ks)"
    by blast
  from main_keystream_Inr [OF assms(1,2)] c(1) assms(3) have "main_keystream key arg = Inr ks"
    by auto
  with c show ?thesis by blast
qed

text \<open>
  The theorem at the identity key, a three-byte input and the argument \<open>3\<close>.
\<close>

theorem crypt_uses_keystream_witness:
  "length (map of_nat [0..<256] :: bytes) = 256 \<and> stoul ''3'' = Inr 3
   \<and> unat (3 :: size_t) = length [7, 8, 9 :: byte]
   \<and> (\<exists>ks. main_keystream (map of_nat [0..<256]) ''3'' = Inr ks \<and> length ks = length [7, 8, 9 :: byte]
          \<and> main_crypt (map of_nat [0..<256]) [7, 8, 9] = Inr (map2 (XOR) [7, 8, 9] ks))"
proof -
  have s: "stoul ''3'' = Inr 3" by (simp add: stoul_eval)
  have u: "unat (3 :: size_t) = length [7, 8, 9 :: byte]" by simp
  have l: "length (map of_nat [0..<256] :: bytes) = 256" by simp
  from crypt_uses_keystream [OF l s u] show ?thesis using s u l by blast
qed

end
